theory Spec2Isabelle
  imports Complex_Main "HOL-Library.AList"
begin

section \<open>Go library functions used by the resolver\<close>

text \<open>
  \<^verbatim>\<open>strings.TrimPrefix\<close>, \<^verbatim>\<open>strings.TrimSuffix\<close> and \<^verbatim>\<open>strings.Split\<close> (the
  source only splits on the one-byte separator \<^verbatim>\<open>"/"\<close>), on Go strings as byte lists.
\<close>

definition TrimPrefix :: "string \<Rightarrow> string \<Rightarrow> string" where
  "TrimPrefix s p = (if take (length p) s = p then drop (length p) s else s)"

definition TrimSuffix :: "string \<Rightarrow> string \<Rightarrow> string" where
  "TrimSuffix s p =
     (if length p \<le> length s \<and> drop (length s - length p) s = p
      then take (length s - length p) s else s)"

fun Split :: "string \<Rightarrow> char \<Rightarrow> string list" where
  "Split [] sep = [[]]"
| "Split (c # cs) sep =
     (if c = sep then [] # Split cs sep
      else (case Split cs sep of
              [] \<Rightarrow> [[c]]
            | seg # segs \<Rightarrow> (c # seg) # segs))"

text \<open>
  \<^verbatim>\<open>strings.NewReplacer(old1, new1, old2, new2, ...).Replace(s)\<close>: one pass over \<^verbatim>\<open>s\<close>
  from left to right; at each position the old strings are compared in argument order,
  the first one found there is replaced and the scan goes on behind it; where none is
  found the byte is copied. Replaced text is not scanned again. (Every old string of the
  source is non-empty; a pair with an empty old string is skipped here.)
\<close>

fun lookup_pair :: "(string \<times> string) list \<Rightarrow> string \<Rightarrow> (string \<times> string) option" where
  "lookup_pair [] s = None"
| "lookup_pair ((old, new) # ps) s =
     (if old \<noteq> [] \<and> take (length old) s = old then Some (old, new) else lookup_pair ps s)"

function Replace :: "(string \<times> string) list \<Rightarrow> string \<Rightarrow> string" where
  "Replace ps [] = []"
| "Replace ps (c # cs) =
     (case lookup_pair ps (c # cs) of
        None \<Rightarrow> c # Replace ps cs
      | Some (old, new) \<Rightarrow> new @ Replace ps (drop (length old) (c # cs)))"
  by pat_completeness auto
termination
proof (relation "measure (\<lambda>(ps, s). length s)")
  show "wf (measure (\<lambda>(ps, s). length s))" by simp
next
  fix ps :: "(string \<times> string) list" and c :: char and cs :: string
  show "((ps, cs), ps, c # cs) \<in> measure (\<lambda>(ps, s). length s)" by simp
next
  fix ps :: "(string \<times> string) list" and c :: char and cs :: string
    and x2 :: "string \<times> string" and old new :: string
  assume found: "lookup_pair ps (c # cs) = Some x2" "(old, new) = x2"
  have "lookup_pair qs t = Some (old, new) \<Longrightarrow> old \<noteq> []" for qs t
    by (induction qs) (auto split: if_splits)
  with found have "old \<noteq> []" by metis
  then show "((ps, drop (length old) (c # cs)), ps, c # cs) \<in> measure (\<lambda>(ps, s). length s)"
    by (cases old) simp_all
qed

text \<open>\<^verbatim>\<open>strings.ReplaceAll(s, old, new)\<close> for a non-empty \<^verbatim>\<open>old\<close>.\<close>

definition ReplaceAll :: "string \<Rightarrow> string \<Rightarrow> string \<Rightarrow> string" where
  "ReplaceAll s old new = Replace [(old, new)] s"

text \<open>\<^verbatim>\<open>strconv.Itoa\<close>: the decimal digits of an integer, with a sign when negative.\<close>

definition digit_char :: "nat \<Rightarrow> char" where
  "digit_char d = ''0123456789'' ! d"

fun digits :: "nat \<Rightarrow> string" where
  "digits n = (if n < 10 then [digit_char n] else digits (n div 10) @ [digit_char (n mod 10)])"

declare digits.simps [simp del]

definition Itoa :: "int \<Rightarrow> string" where
  "Itoa i = (if i < 0 then CHR ''-'' # digits (nat (- i)) else digits (nat i))"

section \<open>Schemas, nodes and the store\<close>

text \<open>
  Modelled from the spec: the declarations of \<^verbatim>\<open>Schema\<close>, \<^verbatim>\<open>Node\<close>, \<^verbatim>\<open>Validator\<close> and
  \<^verbatim>\<open>ref\<close> are not in the two files; the fields are the ones the two files read and write
  (\<^verbatim>\<open>nodes\<close>, \<^verbatim>\<open>Cache\<close>, \<^verbatim>\<open>resolved\<close>; \<^verbatim>\<open>EmbeddedSchemas\<close>, \<^verbatim>\<open>Validator\<close>), with the
  types the specification gives them.
  A \<^verbatim>\<open>*Schema\<close> is an address. A \<^verbatim>\<open>Schema\<close> value holds its keyword nodes (a Go map,
  kept as an association list whose order is the order a \<^verbatim>\<open>range\<close> visits it), the handle of
  the cache map it shares, and the \<^verbatim>\<open>resolved\<close> marker. The maps \<^verbatim>\<open>nodes\<close> and
  \<^verbatim>\<open>EmbeddedSchemas\<close> are never written after decoding, so they are held by value; the
  schemas they point to and the cache maps are written, so they live in the store.
  A node's validator is either the reference validator \<^verbatim>\<open>*ref\<close> (a string) or the validator
  of some other keyword.
\<close>

type_synonym ptr = nat

datatype 'v validator = ref string | keyword 'v

record 'v Node =
  EmbeddedSchemas :: "(string \<times> ptr) list"
  Validator :: "'v validator"

record 'v Schema =
  nodes :: "(string \<times> 'v Node) list"
  Cache :: nat
  resolved :: bool

record 'v world =
  heap :: "ptr \<rightharpoonup> 'v Schema"
  caches :: "nat \<Rightarrow> string \<rightharpoonup> ptr"
  fetched :: "string list"

text \<open>
  What a returned \<^verbatim>\<open>*Schema\<close> points to: the address of the callee's own copy of the root
  (\<^verbatim>\<open>&rootSchema\<close>, a fresh variable holding that value), or an address stored in an
  \<^verbatim>\<open>EmbeddedSchemas\<close> map.
\<close>

datatype 'v target = Root_copy "'v Schema" | Embedded ptr

fun load :: "'v world \<Rightarrow> 'v target \<Rightarrow> 'v Schema option" where
  "load w (Root_copy v) = Some v"
| "load w (Embedded p) = heap w p"

text \<open>
  The outcome of a call: it returns, it panics (a nil pointer is dereferenced), or the
  model's fuel runs out (the call has not returned within the given recursion depth).
\<close>

datatype 'a run = Diverges | Panics | Returns 'a

text \<open>
  The parts of the program outside these two files, taken as parameters:
  \<^verbatim>\<open>url.Parse\<close> (\<^verbatim>\<open>None\<close> when it returns an error) with the two fields of the URL that are
  read, \<^verbatim>\<open>http.Get\<close> (\<^verbatim>\<open>None\<close> when it fails) and \<^verbatim>\<open>ParseWithCache\<close>, which is given
  the body, the flag and the cache map and returns the address of the parsed schema
  (\<^verbatim>\<open>None\<close> when it fails) in a store it may have extended.
\<close>

record URL =
  Scheme :: string
  Fragment :: string

definition IsAbs :: "URL \<Rightarrow> bool" where
  "IsAbs u = (Scheme u \<noteq> [])"

record ('v, 'b) env =
  url_Parse :: "string \<Rightarrow> URL option"
  http_Get :: "string \<Rightarrow> 'b option"
  ParseWithCache :: "'b \<Rightarrow> bool \<Rightarrow> nat \<Rightarrow> 'v world \<Rightarrow> ptr option \<times> 'v world"

section \<open>reference.go\<close>

fun hasRef_nodes :: "(string \<times> 'v Node) list \<Rightarrow> string option" where
  "hasRef_nodes [] = None"
| "hasRef_nodes ((k, n) # ns) =
     (case Validator n of ref r \<Rightarrow> Some r | keyword v \<Rightarrow> hasRef_nodes ns)"

definition hasRef :: "'v Schema \<Rightarrow> string option" where
  "hasRef s = hasRef_nodes (nodes s)"

definition resolveLocalPath ::
  "string list \<Rightarrow> 'v Schema \<Rightarrow> string \<Rightarrow> string + 'v target" where
  "resolveLocalPath split rootSchema str =
     (let failed = Inl (''failed to resolve '' @ str) in
      if length split = 1 then
        (if split ! 0 = [] then Inr (Root_copy rootSchema)
         else (case map_of (nodes rootSchema) (split ! 0) of
                 None \<Rightarrow> failed
               | Some v \<Rightarrow> (case map_of (EmbeddedSchemas v) [] of
                             Some s \<Rightarrow> Inr (Embedded s)
                           | None \<Rightarrow> failed)))
      else if length split = 2 then
        (case map_of (nodes rootSchema) (split ! 0) of
           None \<Rightarrow> failed
         | Some v \<Rightarrow> (case map_of (EmbeddedSchemas v) (split ! 1) of
                       Some s \<Rightarrow> Inr (Embedded s)
                     | None \<Rightarrow> failed))
      else failed)"

text \<open>
  \<^verbatim>\<open>refToSchema\<close>. Its last part (the two \<^verbatim>\<open>TrimPrefix\<close>, the \<^verbatim>\<open>Split\<close>, the replacer
  run over every segment, and the call of \<^verbatim>\<open>resolveLocalPath\<close> with the trimmed string) is
  \<^verbatim>\<open>resolve_local\<close>; it is reached with the reference itself and the caller's root, or,
  for an absolute reference, with the fragment and the external document. Every fetch is
  appended to \<^verbatim>\<open>fetched\<close>. Every \<^verbatim>\<open>Cache\<close> handle stands for a map: a schema whose cache
  is the nil map, where the assignment to the cache would panic, is not part of the model.
\<close>

definition escapes :: "(string \<times> string) list" where
  "escapes = [(''~0'', ''~''), (''~1'', ''/''), (''%25'', ''%'')]"

definition trim_local :: "string \<Rightarrow> string" where
  "trim_local str = TrimPrefix (TrimPrefix str ''#'') ''/''"

definition segments :: "string \<Rightarrow> string list" where
  "segments str = map (Replace escapes) (Split (trim_local str) CHR ''/'')"

definition resolve_local ::
  "string \<Rightarrow> 'v Schema \<Rightarrow> 'v world \<Rightarrow> ((string + 'v target) \<times> 'v world) run" where
  "resolve_local str rootSchema w =
     Returns (resolveLocalPath (segments str) rootSchema (trim_local str), w)"

definition refToSchema ::
  "('v, 'b) env \<Rightarrow> string \<Rightarrow> 'v Schema \<Rightarrow> bool \<Rightarrow> 'v world
     \<Rightarrow> ((string + 'v target) \<times> 'v world) run" where
  "refToSchema E str rootSchema loadExternal w =
     (case url_Parse E str of
        None \<Rightarrow> resolve_local str rootSchema w
      | Some u \<Rightarrow>
          if \<not> IsAbs u then resolve_local str rootSchema w
          else
            (let cacheKey = TrimSuffix str (Fragment u) in
             case caches w (Cache rootSchema) cacheKey of
               Some cachedSchema \<Rightarrow>
                 (case heap w cachedSchema of
                    None \<Rightarrow> Panics
                  | Some cached \<Rightarrow> resolve_local (Fragment u) cached w)
             | None \<Rightarrow>
                 if \<not> loadExternal then Returns (Inl ''external schemas are disabled'', w)
                 else
                   (let w1 = w\<lparr>fetched := fetched w @ [str]\<rparr> in
                    case http_Get E str of
                      None \<Rightarrow> Returns (Inl ''bad external url'', w1)
                    | Some body \<Rightarrow>
                        (case ParseWithCache E body loadExternal (Cache rootSchema) w1 of
                           (None, w2) \<Rightarrow> Returns (Inl ''error parsing external doc'', w2)
                         | (Some s, w2) \<Rightarrow>
                             (let w3 = w2\<lparr>caches := (caches w2)
                                          (Cache rootSchema :=
                                             (caches w2 (Cache rootSchema))(cacheKey \<mapsto> s))\<rparr>
                              in case heap w3 s of
                                   None \<Rightarrow> Panics
                                 | Some parsed \<Rightarrow> resolve_local (Fragment u) parsed w3)))))"

fun resolveSelf ::
  "nat \<Rightarrow> ('v, 'b) env \<Rightarrow> ptr \<Rightarrow> 'v Schema \<Rightarrow> bool \<Rightarrow> 'v world \<Rightarrow> 'v world run" where
  "resolveSelf 0 E s rootSchema loadExternal w = Diverges"
| "resolveSelf (Suc n) E s rootSchema loadExternal w =
     (case heap w s of
        None \<Rightarrow> Panics
      | Some sv \<Rightarrow>
          (case hasRef sv of
             None \<Rightarrow> Returns w
           | Some str \<Rightarrow>
               (case refToSchema E str rootSchema loadExternal w of
                  Diverges \<Rightarrow> Diverges
                | Panics \<Rightarrow> Panics
                | Returns (Inl err, w1) \<Rightarrow> Returns w1
                | Returns (Inr sch, w1) \<Rightarrow>
                    (case load w1 sch of
                       None \<Rightarrow> Panics
                     | Some v \<Rightarrow>
                         resolveSelf n E s rootSchema loadExternal
                           (w1\<lparr>heap := (heap w1)(s \<mapsto> v)\<rparr>)))))"

text \<open>A \<^verbatim>\<open>range\<close> loop whose body runs a call on the store: it stops where a call does not return.\<close>

fun each :: "('a \<Rightarrow> 'w \<Rightarrow> 'w run) \<Rightarrow> 'a list \<Rightarrow> 'w \<Rightarrow> 'w run" where
  "each f [] w = Returns w"
| "each f (x # xs) w =
     (case f x w of
        Diverges \<Rightarrow> Diverges
      | Panics \<Rightarrow> Panics
      | Returns w1 \<Rightarrow> each f xs w1)"

fun resolveSelfAndBelow ::
  "nat \<Rightarrow> ('v, 'b) env \<Rightarrow> ptr \<Rightarrow> 'v Schema \<Rightarrow> bool \<Rightarrow> 'v world \<Rightarrow> 'v world run"
and resolveBelow ::
  "nat \<Rightarrow> ('v, 'b) env \<Rightarrow> ptr \<Rightarrow> 'v Schema \<Rightarrow> bool \<Rightarrow> 'v world \<Rightarrow> 'v world run" where
  "resolveSelfAndBelow 0 E s rootSchema loadExternal w = Diverges"
| "resolveSelfAndBelow (Suc n) E s rootSchema loadExternal w =
     (case resolveSelf n E s rootSchema loadExternal w of
        Diverges \<Rightarrow> Diverges
      | Panics \<Rightarrow> Panics
      | Returns w1 \<Rightarrow> resolveBelow n E s rootSchema loadExternal w1)"
| "resolveBelow 0 E s rootSchema loadExternal w = Diverges"
| "resolveBelow (Suc n) E s rootSchema loadExternal w =
     (case heap w s of
        None \<Rightarrow> Panics
      | Some sv \<Rightarrow>
          if resolved sv then Returns w
          else
            each (\<lambda>nd. each (\<lambda>(k, sch) w1. resolveSelfAndBelow n E sch rootSchema loadExternal w1)
                             (EmbeddedSchemas nd))
                 (map snd (nodes sv))
                 (w\<lparr>heap := (heap w)(s \<mapsto> sv\<lparr>resolved := True\<rparr>)\<rparr>))"

definition resolveRefs :: "nat \<Rightarrow> ('v, 'b) env \<Rightarrow> ptr \<Rightarrow> bool \<Rightarrow> 'v world \<Rightarrow> 'v world run" where
  "resolveRefs n E s loadExternal w =
     (case heap w s of
        None \<Rightarrow> Panics
      | Some rootSchema \<Rightarrow> resolveSelfAndBelow n E s rootSchema loadExternal w)"

text \<open>
  The unescaping as the specification words it: the three replacements one after the other,
  each over the whole segment.
\<close>

definition unescape_sequential :: "string \<Rightarrow> string" where
  "unescape_sequential seg =
     ReplaceAll (ReplaceAll (ReplaceAll seg ''~0'' ''~'') ''~1'' ''/'') ''%25'' ''%''"

fun has_substring :: "string \<Rightarrow> string \<Rightarrow> bool" where
  "has_substring [] sub = (sub = [])"
| "has_substring (c # cs) sub = (take (length sub) (c # cs) = sub \<or> has_substring cs sub)"

subsection \<open>The decoder of embedded schemas\<close>








section \<open>val\_object.go\<close>

text \<open>
  A decoded instance (\<^verbatim>\<open>interface{}\<close>): an object is a \<^verbatim>\<open>map[string]interface{}\<close>, held
  as the list of its entries in the order a \<^verbatim>\<open>range\<close> visits them (Go fixes no order, so
  a property of every list is a property of every order). No validator here looks into a
  number. \<^verbatim>\<open>Schema.Validate\<close> is outside these two files: every validator takes it as the
  parameter \<^verbatim>\<open>sv\<close>, over any type of schemas. A compiled \<^verbatim>\<open>regexp.Regexp\<close> is held as
  its \<^verbatim>\<open>MatchString\<close> predicate.
  Modelled from the spec: the declaration of \<^verbatim>\<open>ValidationError\<close> is not in the two files;
  it carries the one message string the validators put into it.
\<close>

datatype json =
  JNull | JBool bool | JNumber real | JString string | JArray "json list"
  | JObject "(string \<times> json) list"

datatype ValidationError = ValidationError string

record 's dependencies =
  schemaDeps :: "(string \<times> 's) list"
  propertyDeps :: "(string \<times> string list) list"

definition dependencies_Validate ::
  "('s \<Rightarrow> json \<Rightarrow> ValidationError list) \<Rightarrow> 's dependencies \<Rightarrow> json \<Rightarrow> ValidationError list" where
  "dependencies_Validate sv d v =
     (case v of
        JObject val \<Rightarrow>
          (let valErrs =
                 fold (\<lambda>(key, sch) valErrs.
                         if map_of val key = None then valErrs else valErrs @ sv sch v)
                      (schemaDeps d) []
           in fold (\<lambda>(key, props) valErrs.
                      if map_of val key = None then valErrs
                      else fold (\<lambda>a valErrs.
                                   if map_of val a = None
                                   then valErrs @ [ValidationError
                                     (''instance does not have a property with the name '' @ a)]
                                   else valErrs)
                                props valErrs)
                   (propertyDeps d) valErrs)
      | _ \<Rightarrow> [])"

definition maxProperties_Validate :: "int \<Rightarrow> json \<Rightarrow> ValidationError list" where
  "maxProperties_Validate m v =
     (case v of
        JObject val \<Rightarrow>
          if int (length val) > m
          then [ValidationError (''Object has more properties than maxProperties (''
                  @ Itoa (int (length val)) @ '' > '' @ Itoa m @ '')'')]
          else []
      | _ \<Rightarrow> [])"

definition minProperties_Validate :: "int \<Rightarrow> json \<Rightarrow> ValidationError list" where
  "minProperties_Validate m v =
     (case v of
        JObject val \<Rightarrow>
          if int (length val) < m
          then [ValidationError (''Object has fewer properties than minProperties (''
                  @ Itoa (int (length val)) @ '' < '' @ Itoa m @ '')'')]
          else []
      | _ \<Rightarrow> [])"

record 's regexpToSchema =
  regexp :: "string \<Rightarrow> bool"
  schema :: 's

text \<open>The struct \<^verbatim>\<open>patternProperties\<close> has the one field \<^verbatim>\<open>object\<close>; it is held as that slice.\<close>

type_synonym 's patternProperties = "'s regexpToSchema list"

definition patternProperties_Validate ::
  "('s \<Rightarrow> json \<Rightarrow> ValidationError list) \<Rightarrow> 's patternProperties \<Rightarrow> json
     \<Rightarrow> ValidationError list" where
  "patternProperties_Validate sv p v =
     (case v of
        JObject data \<Rightarrow>
          fold (\<lambda>(dataKey, dataVal) valErrs.
                  fold (\<lambda>val valErrs.
                          if regexp val dataKey then valErrs @ sv (schema val) dataVal
                          else valErrs)
                       p valErrs)
               data []
      | _ \<Rightarrow> [])"



record 's properties =
  object :: "string \<rightharpoonup> 's"
  patternProperties :: "'s patternProperties option"
  additionalPropertiesBool :: bool
  additionalPropertiesObject :: "'s option"

text \<open>The body of the loop of \<^verbatim>\<open>properties.Validate\<close> for one key of the instance.\<close>

definition properties_key ::
  "('s \<Rightarrow> json \<Rightarrow> ValidationError list) \<Rightarrow> 's properties \<Rightarrow> string \<times> json
     \<Rightarrow> ValidationError list \<Rightarrow> ValidationError list" where
  "properties_key sv p kv valErrs0 =
     (case kv of (dataKey, dataVal) \<Rightarrow>
        (let (valErrs, match) =
               (case object p dataKey of
                  Some sch \<Rightarrow> (valErrs0 @ sv sch dataVal, True)
                | None \<Rightarrow> (valErrs0, False));
             (valErrs, match) =
               (case patternProperties p of
                  None \<Rightarrow> (valErrs, match)
                | Some pp \<Rightarrow>
                    fold (\<lambda>val (valErrs, match).
                            if regexp val dataKey
                            then (valErrs @ sv (schema val) dataVal, True)
                            else (valErrs, match))
                         pp (valErrs, match))
         in if match then valErrs
            else (case additionalPropertiesObject p of
                    Some s \<Rightarrow> valErrs @ sv s dataVal
                  | None \<Rightarrow>
                      if \<not> additionalPropertiesBool p
                      then [ValidationError ''Additional properties aren't allowed'']
                      else valErrs)))"

definition properties_Validate ::
  "('s \<Rightarrow> json \<Rightarrow> ValidationError list) \<Rightarrow> 's properties \<Rightarrow> json \<Rightarrow> ValidationError list" where
  "properties_Validate sv p v =
     (case v of
        JObject dataMap \<Rightarrow> fold (properties_key sv p) dataMap []
      | _ \<Rightarrow> [])"




definition required_Validate :: "string list \<Rightarrow> json \<Rightarrow> ValidationError list" where
  "required_Validate r v =
     (case v of
        JObject data \<Rightarrow>
          fold (\<lambda>key valErrs.
                  if map_of data key = None
                  then valErrs @ [ValidationError
                         (''Required error. The data must be an object with '' @ key
                          @ '' as one of its keys'')]
                  else valErrs)
               r []
      | _ \<Rightarrow> [])"

section \<open>Sample data\<close>

text \<open>
  A small document and its surroundings, for the concrete cases below. \<^verbatim>\<open>demo_url_Parse\<close>
  stands in for \<^verbatim>\<open>url.Parse\<close> on the references used here (scheme \<^verbatim>\<open>http\<close>, fragment
  without escapes); the transport answers every URL under \<^verbatim>\<open>http://h/\<close> with one document,
  which the parser puts at the addresses 100 and 101. \<^verbatim>\<open>demo_Compile\<close> stands in for
  \<^verbatim>\<open>regexp.Compile\<close> on literal patterns, on literal patterns anchored by \<^verbatim>\<open>^\<close>, and on the
  pattern \<^verbatim>\<open>(\<close>, which does not compile.
\<close>

definition is_object :: "json \<Rightarrow> bool" where
  "is_object v = (case v of JObject val \<Rightarrow> True | _ \<Rightarrow> False)"

definition demo_url_Parse :: "string \<Rightarrow> URL option" where
  "demo_url_Parse s =
     Some \<lparr>Scheme = (if take 5 s = ''http:'' then ''http'' else []),
           Fragment = drop 1 (dropWhile (\<lambda>c. c \<noteq> CHR ''#'') s)\<rparr>"

definition demo_doc :: "unit Schema" where
  "demo_doc =
     \<lparr>nodes = [(''definitions'',
                 \<lparr>EmbeddedSchemas = [(''x'', 101)], Validator = keyword ()\<rparr>)],
      Cache = 0, resolved = True\<rparr>"

definition demo_env :: "(unit, unit Schema) env" where
  "demo_env =
     \<lparr>url_Parse = demo_url_Parse,
      http_Get = (\<lambda>url. if take 9 url = ''http://h/'' then Some demo_doc else None),
      ParseWithCache = (\<lambda>body loadExternal cache w.
         (Some 100, w\<lparr>heap := (heap w)(100 \<mapsto> body,
                                         101 \<mapsto> \<lparr>nodes = [], Cache = cache, resolved = True\<rparr>)\<rparr>))\<rparr>"

definition demo_root :: "unit Schema" where
  "demo_root =
     \<lparr>nodes = [(''definitions'',
                 \<lparr>EmbeddedSchemas = [(''a'', 1), (''a/b~c'', 2)], Validator = keyword ()\<rparr>),
               (''items'', \<lparr>EmbeddedSchemas = [([], 3)], Validator = keyword ()\<rparr>)],
      Cache = 0, resolved = False\<rparr>"

definition ref_schema :: "string \<Rightarrow> unit Schema" where
  "ref_schema r =
     \<lparr>nodes = [(''$ref'', \<lparr>EmbeddedSchemas = [], Validator = ref r\<rparr>)],
      Cache = 0, resolved = False\<rparr>"

definition leaf_schema :: "unit Schema" where
  "leaf_schema = \<lparr>nodes = [], Cache = 0, resolved = False\<rparr>"

definition demo_world :: "unit world" where
  "demo_world =
     \<lparr>heap = [0 \<mapsto> demo_root, 1 \<mapsto> ref_schema ''http://h/d.json#/definitions/x'',
              2 \<mapsto> leaf_schema, 3 \<mapsto> ref_schema ''#/definitions/a~1b~0c''],
      caches = (\<lambda>c. Map.empty), fetched = []\<rparr>"






definition cached_world :: "unit world" where
  "cached_world =
     demo_world\<lparr>heap := (heap demo_world)(100 \<mapsto> demo_doc, 101 \<mapsto> leaf_schema),
                caches := (\<lambda>c. [''http://h/d.json#'' \<mapsto> 100])\<rparr>"

definition tree_world :: "unit world" where
  "tree_world =
     \<lparr>heap = [0 \<mapsto> \<lparr>nodes = [(''properties'',
                               \<lparr>EmbeddedSchemas = [(''a'', 1), (''b'', 2)], Validator = keyword ()\<rparr>),
                             (''items'', \<lparr>EmbeddedSchemas = [([], 3)], Validator = keyword ()\<rparr>)],
                    Cache = 0, resolved = False\<rparr>,
              1 \<mapsto> leaf_schema, 2 \<mapsto> leaf_schema, 3 \<mapsto> leaf_schema],
      caches = (\<lambda>c. Map.empty), fetched = []\<rparr>"

section \<open>Notions used in the statements\<close>

text \<open>
  The schemas a schema embeds, the addresses reachable from an address, the schemas whose
  marker is set, and the store in which the marker of every schema of a set is set and
  nothing else differs.
\<close>

definition children :: "'v Schema \<Rightarrow> ptr list" where
  "children sv = concat (map (\<lambda>nd. map snd (EmbeddedSchemas nd)) (map snd (nodes sv)))"

definition edges :: "'v world \<Rightarrow> (ptr \<times> ptr) set" where
  "edges w = {(p, q). \<exists>sv. heap w p = Some sv \<and> q \<in> set (children sv)}"

definition reach :: "'v world \<Rightarrow> ptr \<Rightarrow> ptr set" where
  "reach w r = (edges w)\<^sup>* `` {r}"

definition marked :: "'v world \<Rightarrow> ptr \<Rightarrow> bool" where
  "marked w p = (case heap w p of Some sv \<Rightarrow> resolved sv | None \<Rightarrow> False)"

definition mark_all :: "ptr set \<Rightarrow> 'v world \<Rightarrow> 'v world" where
  "mark_all M w =
     w\<lparr>heap := (\<lambda>p. if p \<in> M then map_option (\<lambda>sv. sv\<lparr>resolved := True\<rparr>) (heap w p)
                      else heap w p)\<rparr>"

text \<open>
  Every schema of the set is in the store, carries no reference and embeds schemas of the
  set only.
\<close>

definition ref_free :: "ptr set \<Rightarrow> 'v world \<Rightarrow> bool" where
  "ref_free S w =
     (\<forall>p \<in> S. \<exists>sv. heap w p = Some sv \<and> hasRef sv = None \<and> set (children sv) \<subseteq> S)"

text \<open>
  The markers as \<^verbatim>\<open>resolveBelow\<close> leaves them, and as decoding leaves them (none set): a
  schema whose marker is set embeds only schemas whose marker is set.
\<close>

definition marks_closed :: "ptr set \<Rightarrow> 'v world \<Rightarrow> bool" where
  "marks_closed S w =
     (\<forall>p \<in> S. \<forall>sv. heap w p = Some sv \<and> resolved sv \<longrightarrow>
        (\<forall>q \<in> set (children sv). marked w q))"

definition unmarked :: "ptr set \<Rightarrow> 'v world \<Rightarrow> ptr set" where
  "unmarked S w = {p \<in> S. \<not> marked w p}"

definition post :: "ptr set \<Rightarrow> 'v world \<Rightarrow> ptr set \<Rightarrow> bool" where
  "post S w M =
     (M \<subseteq> unmarked S w
      \<and> (\<forall>p \<in> M. \<forall>sv. heap w p = Some sv \<longrightarrow>
            (\<forall>q \<in> set (children sv). marked (mark_all M w) q)))"

text \<open>The parser of external documents leaves the schema at an address as it is.\<close>

definition parser_keeps :: "('v, 'b) env \<Rightarrow> ptr \<Rightarrow> bool" where
  "parser_keeps E s =
     (\<forall>body loadExternal cache w.
        heap (snd (ParseWithCache E body loadExternal cache w)) s = heap w s)"





section \<open>Properties of the resolver\<close>

subsection \<open>Unescaping of path segments\<close>

text \<open>One step of a replacer with a single two-byte or three-byte old string.\<close>

lemma Replace2:
  "Replace [([a, b], n)] (c # cs) =
     (case cs of [] \<Rightarrow> [c]
      | d # r \<Rightarrow> if c = a \<and> d = b then n @ Replace [([a, b], n)] r
                 else c # Replace [([a, b], n)] cs)"
  by (cases cs) auto

lemma Replace3:
  "Replace [([a, b, e], n)] (c # cs) =
     (if take 2 cs = [b, e] \<and> c = a then n @ Replace [([a, b, e], n)] (drop 2 cs)
      else c # Replace [([a, b, e], n)] cs)"
  by (cases cs; cases "tl cs") auto

lemma Replace2_head:
  "Replace [([a, b], [n])] s = x # xs \<Longrightarrow> x \<noteq> n \<Longrightarrow> \<exists>t. s = x # t \<and> xs = Replace [([a, b], [n])] t"
  by (cases s; cases "tl s") (auto split: if_splits)

lemma esc_step:
  "Replace escapes (c # cs) =
     (if c = CHR ''~'' \<and> take 1 cs = ''0'' then CHR ''~'' # Replace escapes (drop 1 cs)
      else if c = CHR ''~'' \<and> take 1 cs = ''1'' then CHR ''/'' # Replace escapes (drop 1 cs)
      else if c = CHR ''%'' \<and> take 2 cs = ''25'' then CHR ''%'' # Replace escapes (drop 2 cs)
      else c # Replace escapes cs)"
  by (cases cs; cases "tl cs") (auto simp: escapes_def)

lemma Replace2_head2:
  assumes "Replace [([a, b], [n])] s = x # y # ys" "x \<noteq> n" "y \<noteq> n"
  shows "\<exists>t. s = x # y # t"
proof -
  from Replace2_head [OF assms(1,2)] obtain t where t: "s = x # t" "y # ys = Replace [([a, b], [n])] t"
    by blast
  from Replace2_head [OF t(2) [symmetric] assms(3)] t(1) show ?thesis by blast
qed

lemma seq_unfold:
  "unescape_sequential s =
     Replace [(''%25'', ''%'')] (Replace [(''~1'', ''/'')] (Replace [(''~0'', ''~'')] s))"
  by (simp add: unescape_sequential_def ReplaceAll_def)

lemma seq_eq:
  "\<not> has_substring s ''~01'' \<Longrightarrow> unescape_sequential s = Replace escapes s"
proof (induction s rule: length_induct)
  case (1 s)
  let ?A = "Replace [(''~0'', ''~'')]"
  let ?B = "Replace [(''~1'', ''/'')]"
  let ?C = "Replace [(''%25'', ''%'')]"
  note IH = "1.IH" [rule_format]
  show ?case
  proof (cases s)
    case Nil
    then show ?thesis by (simp add: seq_unfold)
  next
    case (Cons c cs)
    from "1.prems" Cons have nocs: "\<not> has_substring cs ''~01''" by simp
    have IHcs: "?C (?B (?A cs)) = Replace escapes cs"
      using IH [of cs] nocs Cons by (simp add: seq_unfold)
    consider (t0) r where "c = CHR ''~''" "cs = CHR ''0'' # r"
      | (t1) r where "c = CHR ''~''" "cs = CHR ''1'' # r"
      | (p25) r where "c = CHR ''%''" "cs = CHR ''2'' # CHR ''5'' # r"
      | (plain) "\<not> (c = CHR ''~'' \<and> take 1 cs = ''0'')" "\<not> (c = CHR ''~'' \<and> take 1 cs = ''1'')"
          "\<not> (c = CHR ''%'' \<and> take 2 cs = ''25'')"
      by (cases cs; cases "tl cs") auto
    then show ?thesis
    proof cases
      case t0
      from "1.prems" Cons t0 have nor: "\<not> has_substring r ''~01''" and r1: "take 1 r \<noteq> ''1''"
        by (cases r; simp)+
      have IHr: "?C (?B (?A r)) = Replace escapes r"
        using IH [of r] nor Cons t0 by (simp add: seq_unfold)
      have notone: "\<And>xs. ?A r \<noteq> CHR ''1'' # xs"
      proof
        fix xs assume "?A r = CHR ''1'' # xs"
        from Replace2_head [OF this] have "\<exists>t. r = CHR ''1'' # t" by auto
        with r1 show False by auto
      qed
      have "unescape_sequential s = ?C (?B (?A (CHR ''~'' # CHR ''0'' # r)))"
        using Cons t0 by (simp only: seq_unfold)
      also have "\<dots> = ?C (?B (CHR ''~'' # ?A r))" by simp
      also have "\<dots> = ?C (CHR ''~'' # ?B (?A r))"
        using notone by (cases "?A r") (auto simp: Replace2)
      also have "\<dots> = CHR ''~'' # ?C (?B (?A r))" by (simp add: Replace3)
      also have "\<dots> = Replace escapes s" using IHr Cons t0 by (simp add: escapes_def)
      finally show ?thesis .
    next
      case t1
      from "1.prems" Cons t1 have nor: "\<not> has_substring r ''~01''" by simp
      have IHr: "?C (?B (?A r)) = Replace escapes r"
        using IH [of r] nor Cons t1 by (simp add: seq_unfold)
      have "unescape_sequential s = ?C (?B (?A (CHR ''~'' # CHR ''1'' # r)))"
        using Cons t1 by (simp only: seq_unfold)
      also have "\<dots> = ?C (?B (CHR ''~'' # CHR ''1'' # ?A r))" by (cases r) simp_all
      also have "\<dots> = ?C (CHR ''/'' # ?B (?A r))" by (simp add: Replace2)
      also have "\<dots> = CHR ''/'' # ?C (?B (?A r))" by (simp add: Replace3)
      also have "\<dots> = Replace escapes s" using IHr Cons t1 by (simp add: escapes_def)
      finally show ?thesis .
    next
      case p25
      from "1.prems" Cons p25 have nor: "\<not> has_substring r ''~01''" by simp
      have IHr: "?C (?B (?A r)) = Replace escapes r"
        using IH [of r] nor Cons p25 by (simp add: seq_unfold)
      have "unescape_sequential s = ?C (?B (?A (CHR ''%'' # CHR ''2'' # CHR ''5'' # r)))"
        using Cons p25 by (simp only: seq_unfold)
      also have "\<dots> = ?C (?B (CHR ''%'' # CHR ''2'' # CHR ''5'' # ?A r))"
        by (cases r) simp_all
      also have "\<dots> = ?C (CHR ''%'' # CHR ''2'' # CHR ''5'' # ?B (?A r))"
        by (cases "?A r") simp_all
      also have "\<dots> = CHR ''%'' # ?C (?B (?A r))" by (simp add: Replace3)
      also have "\<dots> = Replace escapes s" using IHr Cons p25 by (simp add: escapes_def)
      finally show ?thesis .
    next
      case plain
      have A: "?A (c # cs) = c # ?A cs"
        using plain by (cases cs) auto
      have B: "?B (c # ?A cs) = c # ?B (?A cs)"
      proof (cases "?A cs")
        case Nil
        then show ?thesis by simp
      next
        case (Cons d ds)
        show ?thesis
        proof (cases "c = CHR ''~'' \<and> d = CHR ''1''")
          case True
          with Cons Replace2_head [of "CHR ''~''" "CHR ''0''" "CHR ''~''" cs d ds]
          have "\<exists>t. cs = CHR ''1'' # t" by auto
          with plain True show ?thesis by auto
        next
          case False
          with Cons show ?thesis by (auto simp: Replace2)
        qed
      qed
      have C: "?C (c # ?B (?A cs)) = c # ?C (?B (?A cs))"
      proof (cases "c = CHR ''%'' \<and> take 2 (?B (?A cs)) = ''25''")
        case True
        then obtain ys where ys: "?B (?A cs) = CHR ''2'' # CHR ''5'' # ys"
          by (cases "?B (?A cs)"; cases "tl (?B (?A cs))") auto
        from Replace2_head2 [OF ys] obtain t where t: "?A cs = CHR ''2'' # CHR ''5'' # t"
          by auto
        from Replace2_head2 [OF t] have "\<exists>t'. cs = CHR ''2'' # CHR ''5'' # t'" by auto
        with plain True show ?thesis by auto
      next
        case False
        then show ?thesis by (simp only: Replace3) auto
      qed
      have "unescape_sequential s = ?C (?B (?A (c # cs)))"
        using Cons by (simp only: seq_unfold)
      also have "\<dots> = c # ?C (?B (?A cs))" by (simp only: A B C)
      also have "\<dots> = Replace escapes s" using IHcs Cons plain by (auto simp add: esc_step simp del: Replace.simps)
      finally show ?thesis .
    qed
  qed
qed

text \<open>
  C4. The claim reads the unescaping as three replacements applied one after the other
  (\<^verbatim>\<open>~0\<close> first). The code hands the three pairs to one replacer, which makes a single
  pass; on \<^verbatim>\<open>#/~01\<close> the pass gives the segment \<^verbatim>\<open>~1\<close>, the three replacements in
  sequence give \<^verbatim>\<open>/\<close>.
\<close>

theorem segments_not_sequential:
  "segments ''#/~01'' = [''~1'']
   \<and> map unescape_sequential (Split (TrimPrefix (TrimPrefix ''#/~01'' ''#'') ''/'') CHR ''/'')
       = [''/'']"
  by (simp add: segments_def trim_local_def TrimPrefix_def escapes_def unescape_sequential_def
        ReplaceAll_def)

text \<open>
  C4, amended. After one leading \<^verbatim>\<open>#\<close> and one leading \<^verbatim>\<open>/\<close> are stripped and the rest
  is split on \<^verbatim>\<open>/\<close>, each segment is unescaped in a single pass from left to right that
  replaces \<^verbatim>\<open>~0\<close> by \<^verbatim>\<open>~\<close>, \<^verbatim>\<open>~1\<close> by \<^verbatim>\<open>/\<close> and \<^verbatim>\<open>%25\<close> by \<^verbatim>\<open>%\<close> and does not
  look at replaced text again. On every segment without \<^verbatim>\<open>~01\<close> this is the same as the
  three replacements in sequence; the segment \<^verbatim>\<open>a~1b~0c\<close> becomes \<^verbatim>\<open>a/b~c\<close>.
\<close>

theorem segments_single_pass:
  "segments str
     = map (Replace escapes) (Split (TrimPrefix (TrimPrefix str ''#'') ''/'') CHR ''/'')
   \<and> (\<forall>seg \<in> set (Split (TrimPrefix (TrimPrefix str ''#'') ''/'') CHR ''/'').
         \<not> has_substring seg ''~01'' \<longrightarrow> Replace escapes seg = unescape_sequential seg)
   \<and> Replace escapes (''~0'' @ rest) = ''~'' @ Replace escapes rest
   \<and> Replace escapes (''~1'' @ rest) = ''/'' @ Replace escapes rest
   \<and> Replace escapes (''%25'' @ rest) = ''%'' @ Replace escapes rest"
proof -
  have "Replace escapes (''~0'' @ rest) = ''~'' @ Replace escapes rest"
    and "Replace escapes (''~1'' @ rest) = ''/'' @ Replace escapes rest"
    and "Replace escapes (''%25'' @ rest) = ''%'' @ Replace escapes rest"
    by (simp_all add: escapes_def)
  then show ?thesis
    using seq_eq by (simp add: segments_def trim_local_def)
qed

theorem segments_single_pass_witness:
  "segments ''#/definitions/a~1b~0c'' = [''definitions'', ''a/b~c'']
   \<and> \<not> has_substring ''a~1b~0c'' ''~01''
   \<and> unescape_sequential ''a~1b~0c'' = ''a/b~c''"
  using segments_single_pass [of "''#/definitions/a~1b~0c''" "[]"]
  by (simp add: TrimPrefix_def escapes_def)

subsection \<open>Local paths\<close>

text \<open>
  C7. \<^verbatim>\<open>resolveLocalPath\<close> returns the root it was given when the one segment is empty
  (the path was empty or just \<^verbatim>\<open>/\<close>); for one segment \<^verbatim>\<open>k\<close> the schema under the key
  \<^verbatim>\<open>""\<close> of keyword \<^verbatim>\<open>k\<close>; for two segments the schema under the second of the first; and
  in every other case, and when a lookup misses, the error "failed to resolve" with the
  path.
\<close>

theorem resolveLocalPath_cases:
  "resolveLocalPath [[]] rootSchema str = Inr (Root_copy rootSchema)
   \<and> (k \<noteq> [] \<longrightarrow>
        resolveLocalPath [k] rootSchema str =
          (case Option.bind (map_of (nodes rootSchema) k) (\<lambda>v. map_of (EmbeddedSchemas v) []) of
             Some s \<Rightarrow> Inr (Embedded s)
           | None \<Rightarrow> Inl (''failed to resolve '' @ str)))
   \<and> resolveLocalPath [k1, k2] rootSchema str =
          (case Option.bind (map_of (nodes rootSchema) k1) (\<lambda>v. map_of (EmbeddedSchemas v) k2) of
             Some s \<Rightarrow> Inr (Embedded s)
           | None \<Rightarrow> Inl (''failed to resolve '' @ str))
   \<and> (length segs \<noteq> 1 \<and> length segs \<noteq> 2 \<longrightarrow>
        resolveLocalPath segs rootSchema str = Inl (''failed to resolve '' @ str))
   \<and> segments [] = [[]] \<and> segments ''/'' = [[]]"
  by (auto simp: resolveLocalPath_def segments_def trim_local_def TrimPrefix_def
           split: option.splits Option.bind_splits)

theorem resolveLocalPath_cases_witness:
  "resolveLocalPath [''items''] demo_root ''items'' = Inr (Embedded 3)
   \<and> resolveLocalPath [''definitions'', ''a''] demo_root ''items'' = Inr (Embedded 1)
   \<and> resolveLocalPath [''definitions'', ''a'', ''b''] demo_root ''items''
       = Inl ''failed to resolve items''"
  using resolveLocalPath_cases [of demo_root "''items''" "''items''" "''definitions''" "''a''"
          "[''definitions'', ''a'', ''b'']"]
  by (simp add: demo_root_def)

subsection \<open>Failures of a reference\<close>

lemma refToSchema_keeps:
  assumes "parser_keeps E s"
    and "refToSchema E str rootSchema loadExternal w = Returns (res, w1)"
  shows "heap w1 s = heap w s"
proof -
  have keep: "heap w2 s = heap w0 s"
    if "ParseWithCache E body le cache w0 = (r, w2)" for body le cache w0 r w2
    using assms(1) that unfolding parser_keeps_def by (metis snd_conv)
  show ?thesis
    using assms(2)
    by (auto simp: refToSchema_def resolve_local_def Let_def dest: keep
          split: option.splits if_splits prod.splits)
qed

text \<open>
  C3. The claim says that with external loading disabled an absolute reference always
  fails. The cache is looked up before the flag is read: with the document in the cache
  the reference resolves and the node is overwritten.
\<close>

theorem external_disabled_cache_hit:
  "refToSchema demo_env ''http://h/d.json#/definitions/x'' demo_root False cached_world
     = Returns (Inr (Embedded 101), cached_world)
   \<and> resolveSelf (Suc (Suc 0)) demo_env 1 demo_root False cached_world
       = Returns (cached_world\<lparr>heap := (heap cached_world)(1 \<mapsto> leaf_schema)\<rparr>)"
  by (simp add: cached_world_def demo_world_def demo_env_def demo_url_Parse_def ref_schema_def hasRef_def
        IsAbs_def demo_root_def TrimSuffix_def refToSchema_def demo_doc_def resolve_local_def
        resolveLocalPath_def segments_def trim_local_def TrimPrefix_def escapes_def leaf_schema_def)

(* C5 *)

text \<open>
  C3, amended. When the resolution of the reference of a node fails, \<^verbatim>\<open>resolveSelf\<close>
  returns without an error and without writing the node: the store is the one the failed
  resolution left, and the node is as it was (given that the parser of external documents
  does not touch it). With external loading disabled, an absolute reference whose cache
  key is not in the cache fails with "external schemas are disabled" and the store is
  unchanged.
\<close>

theorem resolveSelf_swallows_failure:
  assumes "heap w s = Some sv" and "hasRef sv = Some str"
  shows "(refToSchema E str rootSchema loadExternal w = Returns (Inl err, w1) \<longrightarrow>
            resolveSelf (Suc n) E s rootSchema loadExternal w = Returns w1
            \<and> (parser_keeps E s \<longrightarrow> heap w1 s = Some sv))
         \<and> (url_Parse E str = Some u \<and> IsAbs u \<and> \<not> loadExternal
              \<and> caches w (Cache rootSchema) (TrimSuffix str (Fragment u)) = None \<longrightarrow>
            refToSchema E str rootSchema loadExternal w
              = Returns (Inl ''external schemas are disabled'', w)
            \<and> resolveSelf (Suc n) E s rootSchema loadExternal w = Returns w)"
proof -
  have "heap w1 s = Some sv"
    if "refToSchema E str rootSchema loadExternal w = Returns (Inl err, w1)" "parser_keeps E s"
    using refToSchema_keeps [OF that(2,1)] assms(1) by simp
  then show ?thesis
    using assms by (auto simp: refToSchema_def)
qed

theorem resolveSelf_swallows_failure_witness:
  "refToSchema demo_env ''http://h/d.json#/definitions/x'' demo_root False demo_world
     = Returns (Inl ''external schemas are disabled'', demo_world)
   \<and> resolveSelf 1 demo_env 1 demo_root False demo_world = Returns demo_world
   \<and> parser_keeps demo_env 1
   \<and> heap demo_world 1 = Some (ref_schema ''http://h/d.json#/definitions/x'')"
  using resolveSelf_swallows_failure [of demo_world 1
          "ref_schema ''http://h/d.json#/definitions/x''" "''http://h/d.json#/definitions/x''"
          demo_env demo_root False "''external schemas are disabled''" demo_world 0
          "\<lparr>Scheme = ''http'', Fragment = ''/definitions/x''\<rparr>"]
  by (simp add: demo_world_def demo_env_def demo_url_Parse_def ref_schema_def hasRef_def
        IsAbs_def demo_root_def TrimSuffix_def parser_keeps_def)

subsection \<open>The cache of external documents\<close>

text \<open>
  What holds of the cache: the key of an absolute reference is the reference string with
  the suffix \<^verbatim>\<open>url.Fragment\<close> trimmed. When the key is not in the cache, loading is
  enabled, and the fetch and the parse succeed, the resolution fetches once and stores the
  parsed document under the key; the resolution of a second reference with the same key
  finds it there, continues from the cached document and fetches nothing.
\<close>

lemma cache_reuse:
  assumes "url_Parse E str1 = Some u1" and "IsAbs u1"
    and "url_Parse E str2 = Some u2" and "IsAbs u2"
    and "TrimSuffix str2 (Fragment u2) = TrimSuffix str1 (Fragment u1)"
    and "caches w (Cache rootSchema) (TrimSuffix str1 (Fragment u1)) = None"
    and "http_Get E str1 = Some body"
    and "ParseWithCache E body True (Cache rootSchema) (w\<lparr>fetched := fetched w @ [str1]\<rparr>)
           = (Some s, w2)"
    and "heap w2 s = Some doc"
  shows "\<exists>w3. refToSchema E str1 rootSchema True w
                 = Returns (resolveLocalPath (segments (Fragment u1)) doc (trim_local (Fragment u1)), w3)
              \<and> caches w3 (Cache rootSchema) (TrimSuffix str1 (Fragment u1)) = Some s
              \<and> fetched w3 = fetched w2
              \<and> refToSchema E str2 rootSchema loadExternal w3
                 = Returns (resolveLocalPath (segments (Fragment u2)) doc (trim_local (Fragment u2)), w3)"
  using assms by (auto simp: refToSchema_def resolve_local_def Let_def)

lemma cache_reuse_example:
  "\<exists>w3. refToSchema demo_env ''http://h/d.json#/definitions/x'' demo_root True demo_world
            = Returns (Inr (Embedded 101), w3)
        \<and> caches w3 0 ''http://h/d.json#'' = Some 100
        \<and> fetched w3 = [''http://h/d.json#/definitions/x'']
        \<and> refToSchema demo_env ''http://h/d.json#'' demo_root False w3
            = Returns (Inr (Root_copy demo_doc), w3)"
  using cache_reuse [of demo_env "''http://h/d.json#/definitions/x''"
          "\<lparr>Scheme = ''http'', Fragment = ''/definitions/x''\<rparr>" "''http://h/d.json#''"
          "\<lparr>Scheme = ''http'', Fragment = []\<rparr>" demo_world demo_root demo_doc 100
          "demo_world\<lparr>fetched := [''http://h/d.json#/definitions/x''],
                      heap := (heap demo_world)(100 \<mapsto> demo_doc,
                                101 \<mapsto> \<lparr>nodes = [], Cache = 0, resolved = True\<rparr>)\<rparr>"
          demo_doc False]
  by (simp add: demo_world_def demo_env_def demo_url_Parse_def IsAbs_def demo_root_def
        TrimSuffix_def demo_doc_def resolveLocalPath_def segments_def trim_local_def
        TrimPrefix_def escapes_def)

text \<open>
  C5. The claim says that two references to the same absolute external URI cost one fetch,
  the cache being keyed by the reference without its fragment. \<^verbatim>\<open>url.Fragment\<close> does not
  hold the \<^verbatim>\<open>#\<close>, so the key of a reference with a fragment ends in \<^verbatim>\<open>#\<close> and the key of
  the same URI written without a fragment does not: resolving \<^verbatim>\<open>http://h/d.json\<close> and then
  \<^verbatim>\<open>http://h/d.json#/definitions/x\<close> stores the document under the first key, misses it
  under the second, and fetches twice.
\<close>

theorem same_document_fetched_twice:
  "(case refToSchema demo_env ''http://h/d.json'' demo_root True demo_world of
      Returns (r1, w1) \<Rightarrow>
        caches w1 0 ''http://h/d.json'' = Some 100 \<and> caches w1 0 ''http://h/d.json#'' = None
        \<and> fetched w1 = [''http://h/d.json'']
        \<and> (case refToSchema demo_env ''http://h/d.json#/definitions/x'' demo_root True w1 of
              Returns (r2, w2) \<Rightarrow>
                fetched w2 = [''http://h/d.json'', ''http://h/d.json#/definitions/x'']
            | _ \<Rightarrow> False)
    | _ \<Rightarrow> False)"
  by (simp add: refToSchema_def resolve_local_def demo_world_def demo_env_def demo_url_Parse_def
        IsAbs_def demo_root_def TrimSuffix_def demo_doc_def)

subsection \<open>Documents without references\<close>

lemma each_append:
  "each f (xs @ ys) w =
     (case each f xs w of Diverges \<Rightarrow> Diverges | Panics \<Rightarrow> Panics | Returns w1 \<Rightarrow> each f ys w1)"
  by (induction xs arbitrary: w) (auto split: run.splits)

lemma each_snd:
  "each (\<lambda>(k, q) w1. h q w1) kvs w = each h (map snd kvs) w"
  by (induction kvs arbitrary: w) (auto split: run.splits)

lemma below_loop_nodes:
  "each (\<lambda>nd. each (\<lambda>(k, sch) w1. h sch w1) (EmbeddedSchemas nd)) nds w
     = each h (concat (map (\<lambda>nd. map snd (EmbeddedSchemas nd)) nds)) w"
  by (induction nds arbitrary: w) (auto simp: each_append each_snd split: run.splits)

lemma below_loop:
  "each (\<lambda>nd. each (\<lambda>(k, sch) w1. h sch w1) (EmbeddedSchemas nd)) (map snd (nodes sv)) w
     = each h (children sv) w"
  unfolding children_def by (rule below_loop_nodes)

lemma mark_all_heap:
  "heap (mark_all M w) p =
     (if p \<in> M then map_option (\<lambda>sv. sv\<lparr>resolved := True\<rparr>) (heap w p) else heap w p)"
  by (simp add: mark_all_def)

lemma mark_all_twice: "mark_all N (mark_all M w) = mark_all (M \<union> N) w"
  by (auto simp: mark_all_def fun_eq_iff option.map_comp comp_def split: option.splits)

lemma mark_all_empty: "mark_all {} w = w"
  by (simp add: mark_all_def)

lemma marked_mark_all:
  "marked (mark_all M w) p \<longleftrightarrow> marked w p \<or> (p \<in> M \<and> heap w p \<noteq> None)"
  by (auto simp: marked_def mark_all_heap split: option.splits)

lemma ref_free_mark_all: "ref_free S w \<Longrightarrow> ref_free S (mark_all M w)"
  unfolding ref_free_def
proof
  fix p assume a: "\<forall>p\<in>S. \<exists>sv. heap w p = Some sv \<and> hasRef sv = None \<and> set (children sv) \<subseteq> S"
    and p: "p \<in> S"
  then obtain sv where sv: "heap w p = Some sv" "hasRef sv = None" "set (children sv) \<subseteq> S"
    by blast
  show "\<exists>sv. heap (mark_all M w) p = Some sv \<and> hasRef sv = None \<and> set (children sv) \<subseteq> S"
    using sv by (auto simp: mark_all_heap hasRef_def children_def)
qed

lemma set_resolved_is_mark:
  "heap w s = Some sv \<Longrightarrow> w\<lparr>heap := (heap w)(s \<mapsto> sv\<lparr>resolved := True\<rparr>)\<rparr> = mark_all {s} w"
  by (auto simp: mark_all_def fun_eq_iff)

lemma resolveSelf_ref_free:
  "heap w s = Some sv \<Longrightarrow> hasRef sv = None \<Longrightarrow> resolveSelf (Suc n) E s rootSchema le w = Returns w"
  by simp

lemma unmarked_mark_all:
  "ref_free S w \<Longrightarrow> unmarked S (mark_all M w) = unmarked S w - M"
  by (auto simp: unmarked_def marked_mark_all ref_free_def)

lemma marked_mono: "marked w p \<Longrightarrow> marked (mark_all M w) p"
  by (simp add: marked_mark_all)

lemma post_empty: "post S w {}"
  by (simp add: post_def)

lemma post_union:
  assumes rf: "ref_free S w" and p1: "post S w M1" and p2: "post S (mark_all M1 w) M2"
  shows "post S w (M1 \<union> M2)"
proof -
  have sub2: "M2 \<subseteq> unmarked S w - M1"
    using p2 rf by (simp add: post_def unmarked_mark_all)
  have "\<forall>q \<in> set (children sv). marked (mark_all (M1 \<union> M2) w) q"
    if p: "p \<in> M1 \<union> M2" and sv: "heap w p = Some sv" for p sv
  proof (cases "p \<in> M1")
    case True
    with p1 sv have "\<forall>q \<in> set (children sv). marked (mark_all M1 w) q"
      by (auto simp: post_def)
    then have "\<forall>q \<in> set (children sv). marked (mark_all M2 (mark_all M1 w)) q"
      by (auto intro: marked_mono)
    then show ?thesis by (simp add: mark_all_twice)
  next
    case False
    with p have "p \<in> M2" by simp
    moreover from False sv have "heap (mark_all M1 w) p = Some sv"
      by (simp add: mark_all_heap)
    ultimately have "\<forall>q \<in> set (children sv). marked (mark_all M2 (mark_all M1 w)) q"
      using p2 by (auto simp: post_def)
    then show ?thesis by (simp add: mark_all_twice)
  qed
  moreover have "M1 \<union> M2 \<subseteq> unmarked S w"
    using p1 sub2 by (auto simp: post_def)
  ultimately show ?thesis by (auto simp: post_def)
qed

lemma loop_marks:
  assumes fin: "finite S"
    and call: "\<And>q w. q \<in> S \<Longrightarrow> ref_free S w \<Longrightarrow> 2 * card (unmarked S w) + 2 \<le> n \<Longrightarrow>
                 \<exists>M. f q w = Returns (mark_all M w) \<and> post S w M \<and> marked (mark_all M w) q"
  shows "set qs \<subseteq> S \<Longrightarrow> ref_free S w \<Longrightarrow> 2 * card (unmarked S w) + 2 \<le> n \<Longrightarrow>
           \<exists>M. each f qs w = Returns (mark_all M w) \<and> post S w M
                \<and> (\<forall>q \<in> set qs. marked (mark_all M w) q)"
proof (induction qs arbitrary: w)
  case Nil
  have "each f [] w = Returns (mark_all {} w)" by (simp add: mark_all_empty)
  then show ?case using post_empty by fastforce
next
  case (Cons q qs)
  from Cons.prems have q: "q \<in> S" and qs: "set qs \<subseteq> S" by auto
  from call [OF q Cons.prems(2,3)] obtain M1 where
    M1: "f q w = Returns (mark_all M1 w)" "post S w M1" "marked (mark_all M1 w) q"
    by blast
  let ?w1 = "mark_all M1 w"
  have rf1: "ref_free S ?w1" using Cons.prems(2) by (rule ref_free_mark_all)
  have "unmarked S ?w1 \<subseteq> unmarked S w"
    using Cons.prems(2) by (simp add: unmarked_mark_all)
  moreover have "finite (unmarked S w)" using fin by (simp add: unmarked_def)
  ultimately have "card (unmarked S ?w1) \<le> card (unmarked S w)" by (rule card_mono [rotated])
  with Cons.prems(3) have fuel1: "2 * card (unmarked S ?w1) + 2 \<le> n" by simp
  from Cons.IH [OF qs rf1 fuel1] obtain M2 where
    M2: "each f qs ?w1 = Returns (mark_all M2 ?w1)" "post S ?w1 M2"
        "\<forall>q \<in> set qs. marked (mark_all M2 ?w1) q"
    by blast
  have res: "each f (q # qs) w = Returns (mark_all (M1 \<union> M2) w)"
    using M1(1) M2(1) by (simp add: mark_all_twice)
  have "post S w (M1 \<union> M2)" using Cons.prems(2) M1(2) M2(2) by (rule post_union)
  moreover have "\<forall>x \<in> set (q # qs). marked (mark_all (M1 \<union> M2) w) x"
    using M1(3) M2(3) marked_mono [of ?w1 q M2] by (auto simp: mark_all_twice)
  ultimately show ?case using res by blast
qed

lemma resolve_marks:
  assumes fin: "finite S"
  shows "(\<forall>s w. s \<in> S \<longrightarrow> ref_free S w \<longrightarrow> 2 * card (unmarked S w) + 1 \<le> n \<longrightarrow>
            (\<exists>M. resolveBelow n E s rootSchema le w = Returns (mark_all M w)
                  \<and> post S w M \<and> marked (mark_all M w) s))
       \<and> (\<forall>s w. s \<in> S \<longrightarrow> ref_free S w \<longrightarrow> 2 * card (unmarked S w) + 2 \<le> n \<longrightarrow>
            (\<exists>M. resolveSelfAndBelow n E s rootSchema le w = Returns (mark_all M w)
                  \<and> post S w M \<and> marked (mark_all M w) s))"
proof (induction n)
  case 0
  show ?case by simp
next
  case (Suc n)
  note below = Suc.IH [THEN conjunct1, rule_format]
  note self_below = Suc.IH [THEN conjunct2, rule_format]
  have B: "\<exists>M. resolveBelow (Suc n) E s rootSchema le w = Returns (mark_all M w)
                  \<and> post S w M \<and> marked (mark_all M w) s"
    if s: "s \<in> S" and rf: "ref_free S w" and fuel: "2 * card (unmarked S w) + 1 \<le> Suc n"
    for s w
  proof -
    from rf s obtain sv where sv: "heap w s = Some sv" "hasRef sv = None"
      "set (children sv) \<subseteq> S"
      by (auto simp: ref_free_def)
    show ?thesis
    proof (cases "resolved sv")
      case True
      with sv have "resolveBelow (Suc n) E s rootSchema le w = Returns (mark_all {} w)"
        by (simp add: mark_all_empty)
      moreover from True sv have "marked (mark_all {} w) s"
        by (simp add: mark_all_empty marked_def)
      ultimately show ?thesis using post_empty by fastforce
    next
      case False
      let ?w0 = "mark_all {s} w"
      have un: "s \<in> unmarked S w" using s sv False by (simp add: unmarked_def marked_def)
      have rf0: "ref_free S ?w0" using rf by (rule ref_free_mark_all)
      have u0: "unmarked S ?w0 = unmarked S w - {s}" using rf by (rule unmarked_mark_all)
      have "finite (unmarked S w)" using fin by (simp add: unmarked_def)
      with un u0 have "card (unmarked S ?w0) + 1 = card (unmarked S w)"
        by (simp add: card_Diff_singleton) (metis Suc_pred card_gt_0_iff empty_iff)
      with fuel have fuel0: "2 * card (unmarked S ?w0) + 2 \<le> n" by simp
      have "\<exists>M. each (\<lambda>q w1. resolveSelfAndBelow n E q rootSchema le w1) (children sv) ?w0
                   = Returns (mark_all M ?w0) \<and> post S ?w0 M
                 \<and> (\<forall>q \<in> set (children sv). marked (mark_all M ?w0) q)"
        using fin self_below sv(3) rf0 fuel0 by (rule loop_marks)
      then obtain M where M:
        "each (\<lambda>q w1. resolveSelfAndBelow n E q rootSchema le w1) (children sv) ?w0
           = Returns (mark_all M ?w0)"
        "post S ?w0 M" "\<forall>q \<in> set (children sv). marked (mark_all M ?w0) q"
        by blast
      have res: "resolveBelow (Suc n) E s rootSchema le w = Returns (mark_all ({s} \<union> M) w)"
        using sv False M(1)
        by (simp add: below_loop set_resolved_is_mark mark_all_twice)
      have fin_eq: "mark_all M ?w0 = mark_all ({s} \<union> M) w" by (simp add: mark_all_twice)
      have Msub: "M \<subseteq> unmarked S w - {s}" using M(2) u0 by (simp add: post_def)
      have "post S w ({s} \<union> M)"
        unfolding post_def
      proof (intro conjI ballI allI impI)
        show "{s} \<union> M \<subseteq> unmarked S w" using un Msub by auto
      next
        fix p sv' q
        assume p: "p \<in> {s} \<union> M" and sv': "heap w p = Some sv'" and q: "q \<in> set (children sv')"
        show "marked (mark_all ({s} \<union> M) w) q"
        proof (cases "p = s")
          case True
          with sv sv' have "sv' = sv" by simp
          with q M(3) fin_eq show ?thesis by simp
        next
          case False
          with p have pM: "p \<in> M" by simp
          from False sv' have "heap ?w0 p = Some sv'" by (simp add: mark_all_heap)
          with pM M(2) q have "marked (mark_all M ?w0) q" by (auto simp: post_def)
          with fin_eq show ?thesis by simp
        qed
      qed
      moreover have "marked (mark_all ({s} \<union> M) w) s"
        using sv by (simp add: marked_mark_all)
      ultimately show ?thesis using res by blast
    qed
  qed
  have SB: "\<exists>M. resolveSelfAndBelow (Suc n) E s rootSchema le w = Returns (mark_all M w)
                  \<and> post S w M \<and> marked (mark_all M w) s"
    if s: "s \<in> S" and rf: "ref_free S w" and fuel: "2 * card (unmarked S w) + 2 \<le> Suc n"
    for s w
  proof -
    from rf s obtain sv where sv: "heap w s = Some sv" "hasRef sv = None"
      by (auto simp: ref_free_def)
    from fuel obtain k where k: "n = Suc k" by (cases n) auto
    have "resolveSelf n E s rootSchema le w = Returns w"
      unfolding k using sv by (rule resolveSelf_ref_free)
    then have "resolveSelfAndBelow (Suc n) E s rootSchema le w
                 = resolveBelow n E s rootSchema le w"
      by simp
    moreover from fuel have "2 * card (unmarked S w) + 1 \<le> n" by simp
    ultimately show ?thesis using below [OF s rf] by simp
  qed
  from B SB show ?case by blast
qed

text \<open>
  C8. Let the schemas reachable from the root be finitely many, all in the store and
  without a reference keyword, with the markers as decoding or an earlier resolution
  leaves them. Then \<^verbatim>\<open>resolveRefs\<close> returns (with enough recursion depth), and in the store
  it leaves the marker of every reachable schema is set and nothing else has changed:
  not a keyword map, not an embedded schema, not the cache, and nothing is fetched.
\<close>

theorem resolveRefs_sets_markers_only:
  assumes fin: "finite S" and r: "r \<in> S" and sub: "S \<subseteq> reach w r"
    and rf: "ref_free S w" and mc: "marks_closed S w"
    and fuel: "2 * card S + 2 \<le> n"
  shows "resolveRefs n E r loadExternal w = Returns (mark_all S w)"
proof -
  from rf r obtain rootSchema where root: "heap w r = Some rootSchema"
    by (auto simp: ref_free_def)
  have "card (unmarked S w) \<le> card S"
    using fin by (intro card_mono) (auto simp: unmarked_def)
  with fuel have "2 * card (unmarked S w) + 2 \<le> n" by simp
  with resolve_marks [OF fin, of n E rootSchema loadExternal] r rf
  obtain M where M: "resolveSelfAndBelow n E r rootSchema loadExternal w = Returns (mark_all M w)"
      "post S w M" "marked (mark_all M w) r"
    by blast
  have inv: "p \<in> S \<and> marked (mark_all M w) p" if "(r, p) \<in> (edges w)\<^sup>*" for p
    using that
  proof (induction rule: rtrancl_induct)
    case base
    show ?case using r M(3) by simp
  next
    case (step p q)
    from step.hyps(2) obtain sv where sv: "heap w p = Some sv" "q \<in> set (children sv)"
      by (auto simp: edges_def)
    from step.IH have pS: "p \<in> S" and pm: "marked (mark_all M w) p" by simp_all
    from rf pS sv have qS: "q \<in> S" by (fastforce simp: ref_free_def)
    have "marked (mark_all M w) q"
    proof (cases "p \<in> M")
      case True
      with M(2) sv show ?thesis by (auto simp: post_def)
    next
      case False
      with pm have "marked w p" by (simp add: marked_mark_all)
      with sv have "resolved sv" by (simp add: marked_def)
      with mc pS sv have "marked w q" by (auto simp: marks_closed_def)
      then show ?thesis by (rule marked_mono)
    qed
    with qS show ?case by simp
  qed
  have all: "marked (mark_all M w) p" if "p \<in> S" for p
    using that sub inv by (auto simp: reach_def)
  have Msub: "M \<subseteq> S" using M(2) by (auto simp: post_def unmarked_def)
  have "heap (mark_all M w) p = heap (mark_all S w) p" for p
  proof (cases "p \<in> S \<and> p \<notin> M")
    case True
    with all [of p] have "marked w p" by (simp add: marked_mark_all)
    then show ?thesis using True by (auto simp: mark_all_heap marked_def split: option.splits)
  next
    case False
    with Msub show ?thesis by (auto simp: mark_all_heap)
  qed
  then have "mark_all M w = mark_all S w"
    by (simp add: mark_all_def fun_eq_iff)
  with M(1) root show ?thesis by (simp add: resolveRefs_def)
qed

lemma tree_reach: "{0, 1, 2, 3} \<subseteq> reach tree_world 0"
proof -
  have e: "(0, q) \<in> edges tree_world" if "q \<in> {1, 2, 3}" for q
    using that by (auto simp: edges_def tree_world_def children_def)
  then have "(0, q) \<in> (edges tree_world)\<^sup>*" if "q \<in> {1, 2, 3}" for q
    using that by blast
  then show ?thesis by (auto simp: reach_def)
qed

theorem resolveRefs_sets_markers_only_witness:
  "resolveRefs 10 demo_env 0 True tree_world = Returns (mark_all {0, 1, 2, 3} tree_world)
   \<and> heap (mark_all {0, 1, 2, 3} tree_world) 2 = Some (leaf_schema\<lparr>resolved := True\<rparr>)"
proof -
  have "ref_free {0, 1, 2, 3} tree_world"
    by (simp add: ref_free_def tree_world_def children_def hasRef_def leaf_schema_def)
  moreover have "marks_closed {0, 1, 2, 3} tree_world"
    by (simp add: marks_closed_def tree_world_def leaf_schema_def)
  moreover have "2 * card {0, 1, 2, 3 :: nat} + 2 \<le> (10 :: nat)" by simp
  ultimately have "resolveRefs 10 demo_env 0 True tree_world
                     = Returns (mark_all {0, 1, 2, 3} tree_world)"
    using resolveRefs_sets_markers_only [of "{0, 1, 2, 3}" 0 tree_world 10 demo_env True]
      tree_reach by simp
  then show ?thesis by (simp add: mark_all_heap tree_world_def)
qed

subsection \<open>The decoder of embedded schemas\<close>





section \<open>Properties of the object validators\<close>

text \<open>
  C9. On an instance that is not an object (not a \<^verbatim>\<open>map[string]interface{}\<close>), every
  validator of the object family returns no errors: \<^verbatim>\<open>dependencies\<close>, \<^verbatim>\<open>maxProperties\<close>,
  \<^verbatim>\<open>minProperties\<close>, \<^verbatim>\<open>patternProperties\<close>, \<^verbatim>\<open>required\<close>, and \<^verbatim>\<open>properties\<close>, which also
  carries \<^verbatim>\<open>additionalProperties\<close>.
\<close>

theorem object_validators_skip_non_objects:
  assumes "\<not> is_object v"
  shows "dependencies_Validate sv d v = [] \<and> maxProperties_Validate m v = []
         \<and> minProperties_Validate n v = [] \<and> patternProperties_Validate sv pp v = []
         \<and> properties_Validate sv p v = [] \<and> required_Validate r v = []"
  using assms
  by (cases v)
     (simp_all add: is_object_def dependencies_Validate_def maxProperties_Validate_def
        minProperties_Validate_def patternProperties_Validate_def properties_Validate_def
        required_Validate_def)

theorem object_validators_skip_non_objects_witness:
  "\<not> is_object (JArray [JString ''a''])
   \<and> dependencies_Validate (\<lambda>s v. s)
        \<lparr>schemaDeps = [(''a'', [ValidationError ''e''])], propertyDeps = [(''a'', [''b''])]\<rparr>
        (JArray [JString ''a'']) = []
   \<and> maxProperties_Validate 0 (JArray [JString ''a'']) = []
   \<and> minProperties_Validate 5 (JArray [JString ''a'']) = []
   \<and> required_Validate [''a''] (JArray [JString ''a'']) = []"
  using object_validators_skip_non_objects [of "JArray [JString ''a'']" "\<lambda>s v. s"
      "\<lparr>schemaDeps = [(''a'', [ValidationError ''e''])], propertyDeps = [(''a'', [''b''])]\<rparr>"
      0 5 "[]"
      "\<lparr>object = Map.empty, patternProperties = None, additionalPropertiesBool = False,
        additionalPropertiesObject = None\<rparr>" "[''a'']"]
  by (simp add: is_object_def)

text \<open>
  C1. With \<^verbatim>\<open>additionalProperties: false\<close> and no schema form, the claim asks for one
  "additional properties" error per unmatched key, kept together with the errors of the
  other keys. The loop assigns a fresh one-element slice at an unmatched key, so at the
  instance \<^verbatim>\<open>{"a": 1, "b": 2}\<close>, visited in this order, two unmatched keys give one error,
  and the error reported for \<^verbatim>\<open>"a"\<close> by its own schema is gone once \<^verbatim>\<open>"b"\<close> is visited.
\<close>

theorem properties_Validate_keeps_one_error:
  "properties_Validate sv
     \<lparr>object = Map.empty, patternProperties = None, additionalPropertiesBool = False,
      additionalPropertiesObject = None\<rparr>
     (JObject [(''a'', JNumber 1), (''b'', JNumber 2)])
   = [ValidationError ''Additional properties aren't allowed'']
   \<and> properties_Validate (\<lambda>s v. s)
     \<lparr>object = [''a'' \<mapsto> [ValidationError ''not a string'']], patternProperties = None,
      additionalPropertiesBool = False, additionalPropertiesObject = None\<rparr>
     (JObject [(''a'', JNumber 1), (''b'', JNumber 2)])
   = [ValidationError ''Additional properties aren't allowed'']"
  by (simp add: properties_Validate_def properties_key_def)










end
